theory Spec2Isabelle
  imports Main "HOL-Library.Multiset"
begin

section \<open>Strings and the Unicode tables\<close>

text \<open>
  A Python \<^verbatim>\<open>str\<close> is a sequence of Unicode code points and \<^verbatim>\<open>len\<close> counts code
  points, so a string is a list of natural numbers here. \<open>ascii\<close> turns a literal of ASCII
  characters into such a list.
\<close>

type_synonym pystr = "nat list"

abbreviation ord :: "char \<Rightarrow> nat" where
  "ord \<equiv> of_char"

definition ascii :: "string \<Rightarrow> pystr" where
  "ascii s = map ord s"

text \<open>
  The regular expressions and \<^verbatim>\<open>str.lower\<close> read the Unicode character database,
  which belongs to the interpreter and not to the program. Its first 256 code points
  (Latin-1) are written out below. What it says above U+00FF is a parameter of the
  model: \<open>isalnum_above\<close> is \<^verbatim>\<open>str.isalnum\<close> on a code point above U+00FF, and
  \<open>lower_above\<close> is \<^verbatim>\<open>str.lower\<close> on a string that holds such a code point.
\<close>

record unicode =
  isalnum_above :: "nat \<Rightarrow> bool"
  lower_above :: "pystr \<Rightarrow> pystr"

definition latin1_isalnum :: "nat \<Rightarrow> bool" where
  "latin1_isalnum c \<longleftrightarrow>
     (ord CHR ''0'' \<le> c \<and> c \<le> ord CHR ''9'') \<or>
     (ord CHR ''A'' \<le> c \<and> c \<le> ord CHR ''Z'') \<or>
     (ord CHR ''a'' \<le> c \<and> c \<le> ord CHR ''z'') \<or>
     c \<in> {0xAA, 0xB2, 0xB3, 0xB5, 0xB9, 0xBA, 0xBC, 0xBD, 0xBE} \<or>
     (0xC0 \<le> c \<and> c \<le> 0xFF \<and> c \<noteq> 0xD7 \<and> c \<noteq> 0xF7)"

definition isalnum :: "unicode \<Rightarrow> nat \<Rightarrow> bool" where
  "isalnum U c = (if c < 256 then latin1_isalnum c else isalnum_above U c)"

text \<open>\<^verbatim>\<open>\w\<close> of a \<^verbatim>\<open>str\<close> pattern: alphanumeric as \<^verbatim>\<open>str.isalnum\<close> has it, or the underscore.\<close>

definition is_word :: "unicode \<Rightarrow> nat \<Rightarrow> bool" where
  "is_word U c \<longleftrightarrow> isalnum U c \<or> c = ord CHR ''_''"

text \<open>
  In Latin-1 the upper-case letters are A to Z and U+00C0 to U+00DE without the
  multiplication sign U+00D7; each has its lower-case form 32 places further on.
\<close>

definition latin1_lower :: "nat \<Rightarrow> nat" where
  "latin1_lower c =
     (if (ord CHR ''A'' \<le> c \<and> c \<le> ord CHR ''Z'') \<or> (0xC0 \<le> c \<and> c \<le> 0xDE \<and> c \<noteq> 0xD7)
      then c + 32 else c)"

definition str_lower :: "unicode \<Rightarrow> pystr \<Rightarrow> pystr" where
  "str_lower U s = (if list_all (\<lambda>c. c < 256) s then map latin1_lower s else lower_above U s)"

section \<open>Regular expressions\<close>

text \<open>
  The three patterns of the program are sequences of a word boundary \<^verbatim>\<open>\b\<close>, a single
  character of a class, and a greedy repetition \<^verbatim>\<open>[...]{n,}\<close> of a class (\<^verbatim>\<open>+\<close> is
  \<^verbatim>\<open>{1,}\<close>). A class is its membership test.
\<close>

datatype atom = WordBoundary | OneOf "nat \<Rightarrow> bool" | Many "nat \<Rightarrow> bool" nat

text \<open>
  \<^verbatim>\<open>\b\<close> holds at a position where exactly one of the character before it and the
  character at it is a word character; beyond either end of the text there is none.
  \<open>prev\<close> is the character before the position and \<open>rest\<close> the text from it on.
\<close>

definition at_boundary :: "(nat \<Rightarrow> bool) \<Rightarrow> nat option \<Rightarrow> pystr \<Rightarrow> bool" where
  "at_boundary w prev rest =
     ((case prev of None \<Rightarrow> False | Some p \<Rightarrow> w p) \<noteq> (case rest of [] \<Rightarrow> False | c # _ \<Rightarrow> w c))"

fun first_some :: "'a option list \<Rightarrow> 'a option" where
  "first_some [] = None"
| "first_some (None # xs) = first_some xs"
| "first_some (Some y # xs) = Some y"

definition prev_after :: "nat option \<Rightarrow> pystr \<Rightarrow> nat \<Rightarrow> nat option" where
  "prev_after prev rest j = (if j = 0 then prev else Some (rest ! (j - 1)))"

text \<open>
  The backtracking matcher: \<open>match_at w r prev rest\<close> is the number of characters the
  first successful match of \<open>r\<close> at the head of \<open>rest\<close> consumes. A repetition first
  takes every character of its class that follows (\<open>k\<close> of them) and gives them back one
  at a time, down to its minimum, until the remainder of the pattern matches.
\<close>

fun match_at :: "(nat \<Rightarrow> bool) \<Rightarrow> atom list \<Rightarrow> nat option \<Rightarrow> pystr \<Rightarrow> nat option" where
  "match_at w [] prev rest = Some 0"
| "match_at w (WordBoundary # r) prev rest =
     (if at_boundary w prev rest then match_at w r prev rest else None)"
| "match_at w (OneOf cls # r) prev rest =
     (case rest of
        [] \<Rightarrow> None
      | c # cs \<Rightarrow> if cls c then map_option Suc (match_at w r (Some c) cs) else None)"
| "match_at w (Many cls n # r) prev rest =
     (let k = length (takeWhile cls rest)
      in first_some
           (map (\<lambda>j. map_option ((+) j) (match_at w r (prev_after prev rest j) (drop j rest)))
                (rev [n ..< Suc k])))"

lemma first_some_map_Some:
  "first_some (map f xs) = Some y \<Longrightarrow> \<exists>x \<in> set xs. f x = Some y"
proof (induction xs)
  case Nil
  then show ?case by simp
next
  case (Cons a xs)
  then show ?case by (cases "f a") auto
qed

lemma match_at_le_length:
  "match_at w r prev rest = Some j \<Longrightarrow> j \<le> length rest"
proof (induction r arbitrary: prev rest j)
  case Nil
  then show ?case by simp
next
  case (Cons a r)
  show ?case
  proof (cases a)
    case WordBoundary
    with Cons show ?thesis by (auto split: if_splits)
  next
    case (OneOf cls)
    with Cons show ?thesis by (fastforce split: list.splits if_splits)
  next
    case (Many cls n)
    with Cons.prems have
      "first_some
         (map (\<lambda>j. map_option ((+) j) (match_at w r (prev_after prev rest j) (drop j rest)))
              (rev [n ..< Suc (length (takeWhile cls rest))])) = Some j"
      by (simp add: Let_def)
    then obtain i where mem: "i \<in> set (rev [n ..< Suc (length (takeWhile cls rest))])" and
      i: "map_option ((+) i) (match_at w r (prev_after prev rest i) (drop i rest)) = Some j"
      by (blast dest: first_some_map_Some)
    from mem have ik: "i \<le> length (takeWhile cls rest)" by auto
    from i obtain j' where j': "match_at w r (prev_after prev rest i) (drop i rest) = Some j'"
      and j: "j = i + j'" by auto
    have "length (takeWhile cls rest) \<le> length rest"
      by (rule length_takeWhile_le)
    with ik have "i \<le> length rest" by simp
    moreover from Cons.IH [OF j'] have "j' \<le> length rest - i" by simp
    ultimately show ?thesis using j by simp
  qed
qed

text \<open>
  \<^verbatim>\<open>re.findall\<close>: scan from the left; where the pattern matches, keep the matched text
  and go on behind it; where it does not, move one character on. None of the three
  patterns of the program matches the empty string (\<open>patterns_nonempty\<close> below), so the
  branch for an empty match (keep it and move one character on) is never taken by them.
\<close>

function findall :: "(nat \<Rightarrow> bool) \<Rightarrow> atom list \<Rightarrow> nat option \<Rightarrow> pystr \<Rightarrow> pystr list" where
  "findall w r prev rest =
     (case match_at w r prev rest of
        None \<Rightarrow> (case rest of [] \<Rightarrow> [] | c # cs \<Rightarrow> findall w r (Some c) cs)
      | Some j \<Rightarrow>
          if 0 < j then take j rest # findall w r (Some (rest ! (j - 1))) (drop j rest)
          else [] # (case rest of [] \<Rightarrow> [] | c # cs \<Rightarrow> findall w r (Some c) cs))"
  by pat_completeness auto
termination
proof (relation "measure (\<lambda>(w, r, prev, rest). length rest)")
  fix w r prev rest j
  assume "match_at w r prev rest = Some j" and "0 < j"
  then show "((w, r, Some (rest ! (j - 1)), drop j rest), (w, r, prev, rest))
               \<in> measure (\<lambda>(w, r, prev, rest). length rest)"
    using match_at_le_length [of w r prev rest j] by simp
qed simp_all

declare findall.simps [simp del]

definition re_findall :: "unicode \<Rightarrow> atom list \<Rightarrow> pystr \<Rightarrow> pystr list" where
  "re_findall U pattern text = findall (is_word U) pattern None text"

section \<open>Configuration\<close>

text \<open>
  The fields \<^verbatim>\<open>__init__\<close> stores and never changes. \<^verbatim>\<open>auth\<close> and the user agent only
  configure the HTTP session, which is part of the environment below.
\<close>

record config =
  start_url :: pystr
  depth :: int
  min_word_length :: int
  max_word_length :: "int option"
  lowercase :: bool
  with_numbers :: bool
  email_file :: "pystr option"
  meta :: bool

section \<open>Tokenizer and email extractor\<close>

text \<open>
  The class of the pattern without numbers: \<^verbatim>\<open>a-z\<close>, \<^verbatim>\<open>A-Z\<close> and the range from
  U+00C0 to U+00FF. The multiplication sign U+00D7 and the division sign U+00F7 lie in
  that range.
\<close>

definition letters_class :: "nat \<Rightarrow> bool" where
  "letters_class c \<longleftrightarrow>
     (ord CHR ''a'' \<le> c \<and> c \<le> ord CHR ''z'') \<or>
     (ord CHR ''A'' \<le> c \<and> c \<le> ord CHR ''Z'') \<or>
     (0xC0 \<le> c \<and> c \<le> 0xFF)"

text \<open>The class of the pattern with numbers: \<^verbatim>\<open>\w\<close> and the range from U+00C0 to U+024F.\<close>

definition word_class :: "unicode \<Rightarrow> nat \<Rightarrow> bool" where
  "word_class U c \<longleftrightarrow> is_word U c \<or> (0xC0 \<le> c \<and> c \<le> 0x24F)"

text \<open>The loop of \<^verbatim>\<open>extract_words\<close> over the matches.\<close>

primrec filter_words :: "unicode \<Rightarrow> config \<Rightarrow> pystr list \<Rightarrow> pystr list" where
  "filter_words U c [] = []"
| "filter_words U c (word # words) =
     (let word_len = int (length word)
      in if word_len \<ge> min_word_length c
         then (case max_word_length c of
                 None \<Rightarrow> str_lower U word # filter_words U c words
               | Some m \<Rightarrow> if word_len \<le> m then str_lower U word # filter_words U c words
                           else filter_words U c words)
         else filter_words U c words)"

definition extract_words :: "unicode \<Rightarrow> config \<Rightarrow> pystr \<Rightarrow> pystr list" where
  "extract_words U c text =
     (let pattern = (if with_numbers c
                     then [WordBoundary, Many (word_class U) 1, WordBoundary]
                     else [WordBoundary, Many letters_class 1, WordBoundary]);
          words = re_findall U pattern text
      in filter_words U c words)"

text \<open>
  The classes of the email pattern
  \<^verbatim>\<open>\b[A-Za-z0-9._%+-]+@[A-Za-z0-9.-]+\.[A-Z|a-z]{2,}\b\<close>. The last one is written
  \<^verbatim>\<open>[A-Z|a-z]\<close>, so the bar is a member of it.
\<close>

definition ascii_letter :: "nat \<Rightarrow> bool" where
  "ascii_letter c \<longleftrightarrow>
     (ord CHR ''A'' \<le> c \<and> c \<le> ord CHR ''Z'') \<or> (ord CHR ''a'' \<le> c \<and> c \<le> ord CHR ''z'')"

definition ascii_digit :: "nat \<Rightarrow> bool" where
  "ascii_digit c \<longleftrightarrow> ord CHR ''0'' \<le> c \<and> c \<le> ord CHR ''9''"

definition email_local :: "nat \<Rightarrow> bool" where
  "email_local c \<longleftrightarrow> ascii_letter c \<or> ascii_digit c \<or> c \<in> set (ascii ''._%+-'')"

definition email_domain :: "nat \<Rightarrow> bool" where
  "email_domain c \<longleftrightarrow> ascii_letter c \<or> ascii_digit c \<or> c \<in> set (ascii ''.-'')"

definition email_tld :: "nat \<Rightarrow> bool" where
  "email_tld c \<longleftrightarrow> ascii_letter c \<or> c = ord CHR ''|''"

definition email_pattern :: "atom list" where
  "email_pattern =
     [WordBoundary, Many email_local 1, OneOf (\<lambda>c. c = ord CHR ''@''), Many email_domain 1,
      OneOf (\<lambda>c. c = ord CHR ''.''), Many email_tld 2, WordBoundary]"

definition extract_emails :: "unicode \<Rightarrow> pystr \<Rightarrow> pystr list" where
  "extract_emails U text = re_findall U email_pattern text"

section \<open>The crawl engine\<close>

text \<open>
  What the program calls and does not define is the environment \<open>env\<close>:
  \<^item> \<open>ucd\<close>, the Unicode tables above;
  \<^item> \<open>netloc\<close>, the \<^verbatim>\<open>netloc\<close> field of \<^verbatim>\<open>urlparse\<close>, or \<open>None\<close> where
    \<^verbatim>\<open>urlparse\<close> raises \<^verbatim>\<open>ValueError\<close>;
  \<^item> \<open>urljoin\<close>, or \<open>None\<close> where it raises \<^verbatim>\<open>ValueError\<close>;
  \<^item> \<open>fetch_page\<close>, lines 90 to 100, 113 and 122 of the source together: the request,
    \<^verbatim>\<open>raise_for_status\<close> and the parse of the response into its visible text, the
    \<^verbatim>\<open>content\<close> of each \<^verbatim>\<open>meta\<close> tag (the empty string where it has none) and the
    \<^verbatim>\<open>href\<close> of each link, or the exception one of them raises. The answer of the
    server may depend on the requests made before, so \<open>fetch_page\<close> is given the log
    of the run.
\<close>

datatype error = RequestException | ValueError | OtherException

record page =
  page_text :: pystr
  page_metas :: "pystr list"
  page_hrefs :: "pystr list"

datatype response = Raises error | Parsed page

record env =
  ucd :: unicode
  netloc :: "pystr \<Rightarrow> pystr option"
  urljoin :: "pystr \<Rightarrow> pystr \<Rightarrow> pystr option"
  fetch_page :: "(pystr \<times> int) list \<Rightarrow> pystr \<Rightarrow> response"

text \<open>
  How \<^verbatim>\<open>urlsplit\<close> of CPython 3.11, which \<^verbatim>\<open>urlparse\<close> calls, cuts the network location
  out of a URL: leading characters up to U+0020 are stripped; tabs, carriage returns and
  line feeds are removed; a scheme (an ASCII letter, then letters, digits, \<^verbatim>\<open>+\<close>, \<^verbatim>\<open>-\<close>
  and \<^verbatim>\<open>.\<close>, up to the first colon) is cut off; if two slashes follow, the network
  location is what stands between them and the next \<^verbatim>\<open>/\<close>, \<^verbatim>\<open>?\<close> or \<^verbatim>\<open>#\<close>, and it is
  empty otherwise. The user information (\<^verbatim>\<open>user:password@\<close>) is part of it, and nothing
  is put in lower case. \<^verbatim>\<open>urlsplit\<close> raises on some network locations with brackets or
  with characters outside ASCII; where it returns, its \<^verbatim>\<open>netloc\<close> is this string. So
  the field \<open>netloc\<close> of an environment that stands for the library is
  \<open>Some (urlsplit_netloc url)\<close> or \<open>None\<close>.
\<close>

definition scheme_char :: "nat \<Rightarrow> bool" where
  "scheme_char c \<longleftrightarrow> ascii_letter c \<or> ascii_digit c \<or> c \<in> set (ascii ''+-.'')"

definition urlsplit_netloc :: "pystr \<Rightarrow> pystr" where
  "urlsplit_netloc u =
     (let url = dropWhile (\<lambda>c. c \<le> 0x20) u;
          url = filter (\<lambda>c. c \<noteq> 0x09 \<and> c \<noteq> 0x0D \<and> c \<noteq> 0x0A) url;
          i = length (takeWhile (\<lambda>c. c \<noteq> ord CHR '':'') url);
          url = (if 0 < i \<and> i < length url \<and> ascii_letter (hd url) \<and>
                    list_all scheme_char (take i url)
                 then drop (i + 1) url else url)
      in if take 2 url = ascii ''//''
         then takeWhile (\<lambda>c. c \<noteq> ord CHR ''/'' \<and> c \<noteq> ord CHR ''?'' \<and> c \<noteq> ord CHR ''#'')
                (drop 2 url)
         else [])"

text \<open>
  The mutable fields of the object. \<^verbatim>\<open>Counter\<close> is a multiset. \<open>crawl_log\<close> is the
  sequence of lines \<^verbatim>\<open>[*] Crawling: url (depth: d)\<close> on standard error; line 89 writes
  one immediately before each request of line 90, so it is the record of the fetches.
\<close>

record state =
  visited_urls :: "pystr set"
  words :: "pystr multiset"
  emails :: "pystr set"
  crawl_log :: "(pystr \<times> int) list"

definition init_state :: state where
  "init_state = \<lparr>visited_urls = {}, words = {#}, emails = {}, crawl_log = []\<rparr>"

definition is_valid_url :: "env \<Rightarrow> config \<Rightarrow> pystr \<Rightarrow> error + bool" where
  "is_valid_url E c url =
     (case netloc E (start_url c) of
        None \<Rightarrow> Inl ValueError
      | Some parsed_start \<Rightarrow>
          (case netloc E url of
             None \<Rightarrow> Inl ValueError
           | Some parsed_url \<Rightarrow> Inr (parsed_start = parsed_url)))"

text \<open>The truth value of \<^verbatim>\<open>self.email_file\<close>, a string or \<^verbatim>\<open>None\<close>.\<close>

definition truthy :: "pystr option \<Rightarrow> bool" where
  "truthy x = (case x of None \<Rightarrow> False | Some s \<Rightarrow> s \<noteq> [])"

text \<open>The loop over the \<^verbatim>\<open>meta\<close> tags, lines 114 to 118.\<close>

primrec meta_words :: "env \<Rightarrow> config \<Rightarrow> pystr list \<Rightarrow> state \<Rightarrow> state" where
  "meta_words E c [] s = s"
| "meta_words E c (content # tags) s =
     (if content \<noteq> []
      then meta_words E c tags (s\<lparr>words := words s + mset (extract_words (ucd E) c content)\<rparr>)
      else meta_words E c tags s)"

text \<open>Lines 102 to 118: what a fetched page adds to the words and the emails.\<close>

definition scrape :: "env \<Rightarrow> config \<Rightarrow> page \<Rightarrow> state \<Rightarrow> state" where
  "scrape E c p s =
     (let s1 = s\<lparr>words := words s + mset (extract_words (ucd E) c (page_text p))\<rparr>;
          s2 = (if truthy (email_file c)
                then s1\<lparr>emails := emails s1 \<union> set (extract_emails (ucd E) (page_text p))\<rparr>
                else s1)
      in if meta c then meta_words E c (page_metas p) s2 else s2)"

text \<open>
  \<open>crawl\<close> returns the exception that leaves it, if any, and the state of the object.
  Inside the \<^verbatim>\<open>try\<close> both handlers only print, so whatever is raised there ends the
  call normally with the state reached so far. \<^verbatim>\<open>is_valid_url\<close> is called before the
  \<^verbatim>\<open>try\<close>: its exception leaves \<open>crawl\<close> and is caught in the caller, in the loop over
  the links (\<open>crawl_links\<close>), which it ends.
\<close>

function crawl :: "env \<Rightarrow> config \<Rightarrow> pystr \<Rightarrow> int \<Rightarrow> state \<Rightarrow> error option \<times> state"
  and crawl_links ::
    "env \<Rightarrow> config \<Rightarrow> pystr \<Rightarrow> int \<Rightarrow> pystr list \<Rightarrow> state \<Rightarrow> error option \<times> state"
where
  "crawl E c url current_depth s =
     (if current_depth > depth c \<or> url \<in> visited_urls s then (None, s)
      else case is_valid_url E c url of
        Inl e \<Rightarrow> (Some e, s)
      | Inr False \<Rightarrow> (None, s)
      | Inr True \<Rightarrow>
          (let s1 = s\<lparr>visited_urls := insert url (visited_urls s),
                       crawl_log := crawl_log s @ [(url, current_depth)]\<rparr>
           in case fetch_page E (crawl_log s) url of
                Raises e \<Rightarrow> (None, s1)
              | Parsed p \<Rightarrow>
                  (let s2 = scrape E c p s1
                   in if current_depth < depth c
                      then (None, snd (crawl_links E c url current_depth (page_hrefs p) s2))
                      else (None, s2))))"
| "crawl_links E c url current_depth [] s = (None, s)"
| "crawl_links E c url current_depth (href # links) s =
     (case urljoin E url href of
        None \<Rightarrow> (Some ValueError, s)
      | Some next_url \<Rightarrow>
          (case crawl E c (takeWhile (\<lambda>x. x \<noteq> ord CHR ''#'') next_url) (current_depth + 1) s of
             (Some e, s') \<Rightarrow> (Some e, s')
           | (None, s') \<Rightarrow> crawl_links E c url current_depth links s'))"
  by pat_completeness auto

lemma crawl_all_dom: "All crawl_crawl_links_dom"
  by (relation "inv_image (less_than <*lex*> less_than)
        (\<lambda>x. case x of
           Inl (E, c, url, d, s) \<Rightarrow> (nat (depth c + 1 - d), 0)
         | Inr (E, c, url, d, links, s) \<Rightarrow> (nat (depth c - d), Suc (length links)))")
     auto

termination crawl
  by (rule crawl_all_dom)

declare crawl.simps [simp del]

text \<open>\<^verbatim>\<open>run\<close>: the crawl of the start URL at depth 0 on a new object, and what it returns.\<close>

definition run_crawl :: "env \<Rightarrow> config \<Rightarrow> error option \<times> state" where
  "run_crawl E c = crawl E c (start_url c) 0 init_state"


section \<open>Sample inputs\<close>

text \<open>
  Concrete inputs on which the theorems below are evaluated. \<open>sample_unicode\<close> holds
  what the Unicode tables say of U+0130, the capital I with a dot above: it is
  alphanumeric, and its lower-case form is the two code points U+0069 U+0307. Its
  \<open>lower_above\<close> leaves every other code point as it is, so it is \<^verbatim>\<open>str.lower\<close> on
  the strings whose other characters have no lower-case form of their own.
\<close>

definition sample_unicode :: unicode where
  "sample_unicode =
     \<lparr>isalnum_above = (\<lambda>c. c = 0x130),
      lower_above = (\<lambda>s. concat (map (\<lambda>c. if c = 0x130 then [0x69, 0x307] else [c]) s))\<rparr>"

text \<open>The defaults of the command line, with a depth of 1 and an email file.\<close>

definition sample_config :: config where
  "sample_config =
     \<lparr>start_url = ascii ''http://a.io/'', depth = 1, min_word_length = 3, max_word_length = None,
      lowercase = False, with_numbers = False, email_file = Some (ascii ''emails.txt''), meta = True\<rparr>"

text \<open>
  A site of three pages: the start page links to \<^verbatim>\<open>/b\<close>, to another host, to \<^verbatim>\<open>/f\<close>
  (whose request fails), to itself with a fragment and to \<^verbatim>\<open>/b\<close> again; \<^verbatim>\<open>/b\<close> links
  to \<^verbatim>\<open>/c\<close>. Every other URL fails to load. \<^verbatim>\<open>urlparse\<close> raises on no URL, and every
  link is absolute.
\<close>

definition sample_pages :: "(pystr \<times> response) list" where
  "sample_pages =
     [(ascii ''http://a.io/'',
         Parsed \<lparr>page_text = ascii ''Hello world'', page_metas = [[], ascii ''crawler''],
                 page_hrefs = [ascii ''http://a.io/b'', ascii ''http://b.io/'', ascii ''http://a.io/f'',
                               ascii ''http://a.io/#top'', ascii ''http://a.io/b'']\<rparr>),
      (ascii ''http://a.io/b'',
         Parsed \<lparr>page_text = ascii ''mail bob@a.io'', page_metas = [],
                 page_hrefs = [ascii ''http://a.io/c'']\<rparr>),
      (ascii ''http://a.io/c'',
         Parsed \<lparr>page_text = ascii ''deep'', page_metas = [], page_hrefs = []\<rparr>)]"

definition sample_env :: env where
  "sample_env =
     \<lparr>ucd = sample_unicode,
      netloc = (\<lambda>u. Some (urlsplit_netloc u)),
      urljoin = (\<lambda>base href. Some href),
      fetch_page = (\<lambda>log u. case map_of sample_pages u of
                               None \<Rightarrow> Raises RequestException
                             | Some r \<Rightarrow> r)\<rparr>"

section \<open>Notions used in the statements and proofs\<close>

text \<open>\<^verbatim>\<open>str.isdigit\<close> on Latin-1: the ten digits and the superscripts two, three and one.\<close>

definition latin1_isdigit :: "nat \<Rightarrow> bool" where
  "latin1_isdigit c \<longleftrightarrow> (ord CHR ''0'' \<le> c \<and> c \<le> ord CHR ''9'') \<or> c \<in> {0xB2, 0xB3, 0xB9}"



text \<open>
  The shape of a pattern, word boundaries set aside: a string has it when it splits
  into one part for each atom, a single character of the class for \<open>OneOf\<close> and at least
  \<open>n\<close> characters of the class for \<open>Many\<close>.
\<close>

fun conforms :: "atom list \<Rightarrow> pystr \<Rightarrow> bool" where
  "conforms [] s \<longleftrightarrow> s = []"
| "conforms (WordBoundary # r) s \<longleftrightarrow> conforms r s"
| "conforms (OneOf cls # r) s \<longleftrightarrow> (\<exists>c cs. s = c # cs \<and> cls c \<and> conforms r cs)"
| "conforms (Many cls n # r) s \<longleftrightarrow>
     (\<exists>a b. s = a @ b \<and> n \<le> length a \<and> list_all cls a \<and> conforms r b)"

text \<open>
  What a call of \<open>crawl\<close> at depth \<open>d\<close> may do to the state: it appends lines to the
  log, for URLs that are pairwise different, were not visited before, are in scope and
  are logged with a depth between \<open>d\<close> and the maximum; the visited set grows by
  exactly these URLs; words and emails are only added.
\<close>

definition grows :: "env \<Rightarrow> config \<Rightarrow> int \<Rightarrow> state \<Rightarrow> state \<Rightarrow> bool" where
  "grows E c d s s' \<longleftrightarrow>
     (\<exists>new. crawl_log s' = crawl_log s @ new \<and>
            visited_urls s' = visited_urls s \<union> set (map fst new) \<and>
            distinct (map fst new) \<and>
            set (map fst new) \<inter> visited_urls s = {} \<and>
            list_all (\<lambda>(u, d'). d \<le> d' \<and> d' \<le> depth c \<and> is_valid_url E c u = Inr True) new) \<and>
     words s \<subseteq># words s' \<and> emails s \<subseteq> emails s'"

section \<open>Properties of the tokenizer\<close>

lemma match_words_span:
  assumes "match_at w [WordBoundary, Many cls (Suc 0), WordBoundary] prev rest = Some j"
  shows "0 < j \<and> j \<le> length (takeWhile cls rest)"
proof -
  let ?k = "length (takeWhile cls rest)"
  let ?f = "\<lambda>j. map_option ((+) j)
              (match_at w [WordBoundary] (prev_after prev rest j) (drop j rest))"
  from assms have "first_some (map ?f (rev [Suc 0 ..< Suc ?k])) = Some j"
    by (simp add: Let_def split: if_splits)
  then obtain i where mem: "i \<in> set (rev [Suc 0 ..< Suc ?k])" and i: "?f i = Some j"
    by (blast dest: first_some_map_Some)
  from i have "j = i" by (auto split: if_splits)
  with mem show ?thesis by auto
qed

lemma findall_words_class:
  "m \<in> set (findall w [WordBoundary, Many cls (Suc 0), WordBoundary] prev rest)
   \<Longrightarrow> m \<noteq> [] \<and> list_all cls m"
proof (induction w "[WordBoundary, Many cls (Suc 0), WordBoundary]" prev rest rule: findall.induct)
  case (1 w prev rest)
  let ?r = "[WordBoundary, Many cls (Suc 0), WordBoundary]"
  note unfold = findall.simps [of w ?r prev rest]
  show ?case
  proof (cases "match_at w ?r prev rest")
    case None
    have eq: "findall w ?r prev rest = (case rest of [] \<Rightarrow> [] | c # cs \<Rightarrow> findall w ?r (Some c) cs)"
      unfolding unfold None by simp
    show ?thesis
    proof (cases rest)
      case Nil
      with eq "1.prems" show ?thesis by simp
    next
      case (Cons c cs)
      with eq "1.prems" have "m \<in> set (findall w ?r (Some c) cs)" by simp
      with "1.hyps"(1) [OF None Cons] show ?thesis .
    qed
  next
    case (Some j)
    from match_words_span [OF Some] have j: "0 < j" "j \<le> length (takeWhile cls rest)" by auto
    have eq: "findall w ?r prev rest =
                take j rest # findall w ?r (Some (rest ! (j - 1))) (drop j rest)"
      unfolding unfold Some using j(1) by simp
    have "take j (xs @ ys) = take j xs" if "j \<le> length xs" for xs ys :: pystr
      using that by simp
    from this [of "takeWhile cls rest" "dropWhile cls rest"] j(2)
    have "take j rest = take j (takeWhile cls rest)" by simp
    then have cls: "list_all cls (take j rest)"
      by (auto simp: list_all_iff dest: in_set_takeD set_takeWhileD)
    from j have ne: "take j rest \<noteq> []" by auto
    from eq "1.prems" have
      "m = take j rest \<or> m \<in> set (findall w ?r (Some (rest ! (j - 1))) (drop j rest))"
      by simp
    then show ?thesis
    proof
      assume "m = take j rest"
      with cls ne show ?thesis by simp
    next
      assume "m \<in> set (findall w ?r (Some (rest ! (j - 1))) (drop j rest))"
      with "1.hyps"(2) [OF Some j(1)] show ?thesis .
    qed
  qed
qed

text \<open>None of the three patterns of the program matches the empty string.\<close>

lemma match_at_nonempty:
  assumes "match_at w (WordBoundary # Many cls (Suc n) # r) prev rest = Some j"
  shows "0 < j"
proof -
  let ?k = "length (takeWhile cls rest)"
  let ?f = "\<lambda>j. map_option ((+) j) (match_at w r (prev_after prev rest j) (drop j rest))"
  from assms have "first_some (map ?f (rev [Suc n ..< Suc ?k])) = Some j"
    by (simp add: Let_def split: if_splits)
  then obtain i where mem: "i \<in> set (rev [Suc n ..< Suc ?k])" and i: "?f i = Some j"
    by (blast dest: first_some_map_Some)
  from i obtain j' where "j = i + j'" by auto
  with mem show ?thesis by auto
qed

lemma patterns_nonempty:
  "match_at w [WordBoundary, Many letters_class 1, WordBoundary] prev rest = Some j \<Longrightarrow> 0 < j"
  "match_at w [WordBoundary, Many (word_class U) 1, WordBoundary] prev rest = Some j \<Longrightarrow> 0 < j"
  "match_at w email_pattern prev rest = Some j \<Longrightarrow> 0 < j"
  unfolding email_pattern_def One_nat_def by (rule match_at_nonempty, assumption)+

lemma filter_words_eq:
  "filter_words U c ms =
     map (str_lower U)
       (filter (\<lambda>m. min_word_length c \<le> int (length m) \<and>
                    (case max_word_length c of None \<Rightarrow> True | Some mx \<Rightarrow> int (length m) \<le> mx)) ms)"
  by (induction ms) (simp_all add: Let_def split: option.splits)

lemma letters_class_latin1: "letters_class x \<Longrightarrow> x < 256"
  by (auto simp: letters_class_def)

lemma str_lower_letters:
  "list_all letters_class m \<Longrightarrow> str_lower U m = map latin1_lower m"
proof -
  assume "list_all letters_class m"
  then have "list_all (\<lambda>c. c < 256) m"
    by (auto simp: list_all_iff letters_class_latin1)
  then show ?thesis by (simp add: str_lower_def)
qed

lemma letters_class_lower: "letters_class x \<Longrightarrow> letters_class (latin1_lower x)"
  unfolding letters_class_def latin1_lower_def by simp

lemma latin1_lower_idem: "latin1_lower (latin1_lower x) = latin1_lower x"
  unfolding latin1_lower_def by simp

lemma letters_not_digit: "letters_class x \<Longrightarrow> \<not> latin1_isdigit x"
  unfolding letters_class_def latin1_isdigit_def by simp arith

lemma extract_words_letters:
  assumes "\<not> with_numbers c" and "x \<in> set (extract_words U c body)"
  shows "\<exists>m. x = map latin1_lower m \<and> m \<noteq> [] \<and> list_all letters_class m \<and>
           min_word_length c \<le> int (length m) \<and>
           (case max_word_length c of None \<Rightarrow> True | Some mx \<Rightarrow> int (length m) \<le> mx)"
proof -
  let ?ms = "re_findall U [WordBoundary, Many letters_class 1, WordBoundary] body"
  from assms have "x \<in> set (filter_words U c ?ms)"
    by (simp add: extract_words_def)
  then obtain m where m: "m \<in> set ?ms" "x = str_lower U m"
    "min_word_length c \<le> int (length m)"
    "(case max_word_length c of None \<Rightarrow> True | Some mx \<Rightarrow> int (length m) \<le> mx)"
    unfolding filter_words_eq by auto
  from m(1) have "m \<noteq> [] \<and> list_all letters_class m"
    using findall_words_class [where m = m and w = "is_word U" and cls = letters_class and prev = None]
    by (simp add: re_findall_def)
  with m show ?thesis using str_lower_letters [of m U] by blast
qed

text \<open>
  Without numbers a returned word is within the length bounds and is its own lower-case
  form: the class holds Latin-1 characters only, whose lower-case forms are single
  characters of the class.
\<close>

lemma extract_words_letters_bounds:
  assumes "\<not> with_numbers c" and "x \<in> set (extract_words U c body)"
  shows "min_word_length c \<le> int (length x) \<and>
         (case max_word_length c of None \<Rightarrow> True | Some mx \<Rightarrow> int (length x) \<le> mx) \<and>
         x \<noteq> [] \<and> list_all letters_class x \<and> str_lower U x = x"
proof -
  from extract_words_letters [OF assms] obtain m where m:
    "x = map latin1_lower m" "m \<noteq> []" "list_all letters_class m"
    "min_word_length c \<le> int (length m)"
    "(case max_word_length c of None \<Rightarrow> True | Some mx \<Rightarrow> int (length m) \<le> mx)"
    by blast
  from m(1,3) have cls: "list_all letters_class x"
    by (auto simp: list_all_iff letters_class_lower)
  from m(1) have "map latin1_lower x = x"
    by (simp add: latin1_lower_idem)
  with cls have "str_lower U x = x" by (simp add: str_lower_letters)
  moreover from m(1) have "length x = length m" by simp
  ultimately show ?thesis using m(2,4,5) cls by (auto split: option.splits)
qed

text \<open>
  Without numbers a returned word that begins and ends with a word character is returned
  again, alone, when the tokenizer is run on it.
\<close>

lemma findall_words_end:
  "findall w [WordBoundary, Many cls (Suc 0), WordBoundary] prev [] = []"
  by (simp add: findall.simps [of w _ prev "[]"])

lemma findall_whole_word:
  assumes "x \<noteq> []" and "list_all cls x" and "w (hd x)" and "w (last x)"
  shows "findall w [WordBoundary, Many cls (Suc 0), WordBoundary] None x = [x]"
proof -
  let ?r = "[WordBoundary, Many cls (Suc 0), WordBoundary]"
  let ?k = "length x"
  from assms(1) have k: "0 < ?k" by simp
  from assms(2) have tw: "takeWhile cls x = x"
    by (simp add: takeWhile_eq_all_conv list_all_iff)
  from assms(1,3) have b0: "at_boundary w None x"
    by (cases x) (simp_all add: at_boundary_def)
  from assms(1) have lastx: "x ! (?k - 1) = last x" by (simp add: last_conv_nth)
  from assms(4) have b1: "at_boundary w (Some (last x)) []"
    by (simp add: at_boundary_def)
  from k have "Suc 0 \<le> ?k" by arith
  then have up: "rev [Suc 0 ..< Suc ?k] = ?k # rev [Suc 0 ..< ?k]" by simp
  have e: "at_boundary w (prev_after None x ?k) []"
    using k b1 lastx by (simp add: prev_after_def)
  have m: "match_at w ?r None x = Some ?k"
    using b0 e by (simp add: Let_def tw up del: upt_Suc)
  show ?thesis
    using m k lastx by (simp add: findall.simps [of w ?r None x] findall_words_end)
qed

lemma extract_words_fixed_point:
  assumes "\<not> with_numbers c" and "x \<in> set (extract_words U c body)"
    and "is_word U (hd x)" and "is_word U (last x)"
  shows "extract_words U c x = [x]"
proof -
  from extract_words_letters_bounds [OF assms(1,2)] have x:
    "min_word_length c \<le> int (length x)"
    "(case max_word_length c of None \<Rightarrow> True | Some mx \<Rightarrow> int (length x) \<le> mx)"
    "x \<noteq> []" "list_all letters_class x" "str_lower U x = x"
    by simp_all
  from findall_whole_word [OF x(3,4) assms(3,4)]
  have "re_findall U [WordBoundary, Many letters_class 1, WordBoundary] x = [x]"
    by (simp add: re_findall_def)
  with assms(1) x(1,2,5) show ?thesis
    by (simp add: extract_words_def filter_words_eq split: option.splits)
qed

text \<open>
  Whatever \<open>findall\<close> returns for a pattern has the shape of the pattern. For the email
  pattern: a local part, \<^verbatim>\<open>@\<close>, a domain, a dot and a last label of two characters at
  least, each part of its class.
\<close>

lemma take_takeWhile_class:
  fixes rest :: pystr
  assumes "i \<le> length (takeWhile cls rest)"
  shows "list_all cls (take i rest) \<and> length (take i rest) = i"
proof -
  have "take i (xs @ ys) = take i xs" if "i \<le> length xs" for xs ys :: pystr
    using that by simp
  from this [of "takeWhile cls rest" "dropWhile cls rest"] assms
  have eq: "take i rest = take i (takeWhile cls rest)" by simp
  then have "list_all cls (take i rest)"
    by (auto simp: list_all_iff dest: in_set_takeD set_takeWhileD)
  moreover have "length (takeWhile cls rest) \<le> length rest" by (rule length_takeWhile_le)
  with assms have "length (take i rest) = i" by simp
  ultimately show ?thesis by simp
qed

lemma match_at_conforms:
  "match_at w r prev rest = Some j \<Longrightarrow> conforms r (take j rest)"
proof (induction r arbitrary: prev rest j)
  case Nil
  then show ?case by simp
next
  case (Cons a r)
  show ?case
  proof (cases a)
    case WordBoundary
    with Cons.prems have "match_at w r prev rest = Some j" by (simp split: if_splits)
    from Cons.IH [OF this] WordBoundary show ?thesis by simp
  next
    case (OneOf cls)
    with Cons.prems obtain c cs j' where p: "rest = c # cs" "cls c"
      "match_at w r (Some c) cs = Some j'" "j = Suc j'"
      by (auto split: list.splits if_splits)
    from Cons.IH [OF p(3)] p(1,2,4) OneOf show ?thesis by simp
  next
    case (Many cls n)
    with Cons.prems have
      "first_some
         (map (\<lambda>j. map_option ((+) j) (match_at w r (prev_after prev rest j) (drop j rest)))
              (rev [n ..< Suc (length (takeWhile cls rest))])) = Some j"
      by (simp add: Let_def)
    then obtain i where mem: "i \<in> set (rev [n ..< Suc (length (takeWhile cls rest))])" and
      i: "map_option ((+) i) (match_at w r (prev_after prev rest i) (drop i rest)) = Some j"
      by (blast dest: first_some_map_Some)
    from mem have ni: "n \<le> i" and ik: "i \<le> length (takeWhile cls rest)" by auto
    from i obtain j' where j': "match_at w r (prev_after prev rest i) (drop i rest) = Some j'"
      and j: "j = i + j'" by auto
    from take_takeWhile_class [OF ik] have a: "list_all cls (take i rest)" "length (take i rest) = i"
      by simp_all
    have split: "take j rest = take i rest @ take j' (drop i rest)"
      unfolding j by (rule take_add)
    from Cons.IH [OF j'] have "conforms r (take j' (drop i rest))" .
    with a ni have "\<exists>x y. take i rest @ take j' (drop i rest) = x @ y \<and>
        n \<le> length x \<and> list_all cls x \<and> conforms r y"
      by (intro exI [of _ "take i rest"] exI [of _ "take j' (drop i rest)"]) simp
    with split Many show ?thesis by simp
  qed
qed

lemma findall_conforms:
  "m \<in> set (findall w r prev rest) \<Longrightarrow> conforms r m"
proof (induction w r prev rest rule: findall.induct)
  case (1 w r prev rest)
  note unfold = findall.simps [of w r prev rest]
  show ?case
  proof (cases "match_at w r prev rest")
    case None
    have eq: "findall w r prev rest = (case rest of [] \<Rightarrow> [] | c # cs \<Rightarrow> findall w r (Some c) cs)"
      unfolding unfold None by simp
    show ?thesis
    proof (cases rest)
      case Nil
      with eq "1.prems" show ?thesis by simp
    next
      case (Cons c cs)
      with eq "1.prems" have "m \<in> set (findall w r (Some c) cs)" by simp
      with "1.IH"(1) [OF None Cons] show ?thesis .
    qed
  next
    case (Some j)
    from match_at_conforms [OF Some] have cj: "conforms r (take j rest)" .
    show ?thesis
    proof (cases "0 < j")
      case True
      have eq: "findall w r prev rest =
                  take j rest # findall w r (Some (rest ! (j - 1))) (drop j rest)"
        unfolding unfold Some using True by simp
      with "1.prems" have
        "m = take j rest \<or> m \<in> set (findall w r (Some (rest ! (j - 1))) (drop j rest))" by simp
      then show ?thesis
      proof
        assume "m = take j rest" with cj show ?thesis by simp
      next
        assume "m \<in> set (findall w r (Some (rest ! (j - 1))) (drop j rest))"
        with "1.IH"(2) [OF Some True] show ?thesis .
      qed
    next
      case False
      then have j0: "j = 0" by simp
      have eq: "findall w r prev rest =
                  [] # (case rest of [] \<Rightarrow> [] | c # cs \<Rightarrow> findall w r (Some c) cs)"
        unfolding unfold Some using False by simp
      from cj j0 have c0: "conforms r []" by simp
      show ?thesis
      proof (cases rest)
        case Nil
        with eq "1.prems" c0 show ?thesis by simp
      next
        case (Cons c cs)
        with eq "1.prems" have "m = [] \<or> m \<in> set (findall w r (Some c) cs)" by simp
        then show ?thesis
        proof
          assume "m = []" with c0 show ?thesis by simp
        next
          assume "m \<in> set (findall w r (Some c) cs)"
          with "1.IH"(3) [OF Some False Cons] show ?thesis .
        qed
      qed
    qed
  qed
qed

lemma extract_emails_shape:
  assumes "e \<in> set (extract_emails U body)"
  shows "\<exists>l d t. e = l @ [ord CHR ''@''] @ d @ [ord CHR ''.''] @ t \<and>
           l \<noteq> [] \<and> list_all email_local l \<and>
           d \<noteq> [] \<and> list_all email_domain d \<and>
           2 \<le> length t \<and> list_all email_tld t"
proof -
  from assms have "conforms email_pattern e"
    unfolding extract_emails_def re_findall_def by (rule findall_conforms)
  then obtain l b1 c1 d b2 c2 t where
    "e = l @ b1" "1 \<le> length l" "list_all email_local l"
    "b1 = c1 # d @ b2" "c1 = ord CHR ''@''" "1 \<le> length d" "list_all email_domain d"
    "b2 = c2 # t" "c2 = ord CHR ''.''" "2 \<le> length t" "list_all email_tld t"
    unfolding email_pattern_def by auto
  then show ?thesis by (intro exI [of _ l] exI [of _ d] exI [of _ t]) auto
qed

text \<open>
  C8: without numbers, no word that \<open>extract_words\<close> returns contains a digit. Every
  character of every returned word is a Latin-1 character of the class of the pattern
  and is no digit, whatever the text was.
\<close>

theorem extract_words_no_digit:
  "\<not> with_numbers c \<Longrightarrow> x \<in> set (extract_words U c body) \<Longrightarrow> d \<in> set x \<Longrightarrow>
     letters_class d \<and> d < 256 \<and> \<not> latin1_isdigit d"
proof -
  assume a: "\<not> with_numbers c" "x \<in> set (extract_words U c body)" "d \<in> set x"
  from extract_words_letters [OF a(1,2)] obtain m where
    m: "x = map latin1_lower m" "list_all letters_class m" by blast
  with a(3) obtain e where "e \<in> set m" "d = latin1_lower e" by auto
  with m(2) have "letters_class d"
    by (auto simp: list_all_iff letters_class_lower)
  then show ?thesis by (simp add: letters_not_digit letters_class_latin1)
qed

theorem extract_words_no_digit_witness:
  "\<not> with_numbers sample_config \<and>
   ascii ''def'' \<in> set (extract_words sample_unicode sample_config (ascii ''abc123 def'')) \<and>
   ord CHR ''d'' \<in> set (ascii ''def'') \<and>
   letters_class (ord CHR ''d'') \<and> ord CHR ''d'' < (256 :: nat) \<and> \<not> latin1_isdigit (ord CHR ''d'')"
proof -
  have h1: "\<not> with_numbers sample_config" by (simp add: sample_config_def)
  have h2: "ascii ''def'' \<in> set (extract_words sample_unicode sample_config (ascii ''abc123 def''))"
    by code_simp
  have h3: "ord CHR ''d'' \<in> set (ascii ''def'')" by (simp add: ascii_def)
  from extract_words_no_digit [OF h1 h2 h3] h1 h2 h3 show ?thesis by blast
qed

text \<open>
  C7: the tokenizer is a function of the text and of three fields of the configuration
  (\<open>with_numbers\<close> and the two length bounds). Two configurations that agree on these
  give the same sequence of words on every text, whatever their \<open>lowercase\<close> flags
  are; the words are lower case either way.
\<close>

theorem extract_words_ignores_lowercase:
  assumes "with_numbers c1 = with_numbers c2"
    and "min_word_length c1 = min_word_length c2"
    and "max_word_length c1 = max_word_length c2"
  shows "extract_words U c1 body = extract_words U c2 body"
  unfolding extract_words_def filter_words_eq Let_def
  by (simp only: assms)

theorem extract_words_ignores_lowercase_witness:
  "with_numbers sample_config = with_numbers (sample_config\<lparr>lowercase := True\<rparr>) \<and>
   min_word_length sample_config = min_word_length (sample_config\<lparr>lowercase := True\<rparr>) \<and>
   max_word_length sample_config = max_word_length (sample_config\<lparr>lowercase := True\<rparr>) \<and>
   lowercase sample_config \<noteq> lowercase (sample_config\<lparr>lowercase := True\<rparr>) \<and>
   extract_words sample_unicode sample_config (ascii ''The Quick fox'') =
     extract_words sample_unicode (sample_config\<lparr>lowercase := True\<rparr>) (ascii ''The Quick fox'') \<and>
   extract_words sample_unicode sample_config (ascii ''The Quick fox'') =
     [ascii ''the'', ascii ''quick'', ascii ''fox'']"
proof -
  have v: "extract_words sample_unicode sample_config (ascii ''The Quick fox'') =
     [ascii ''the'', ascii ''quick'', ascii ''fox'']" by code_simp
  have l: "lowercase sample_config \<noteq> lowercase (sample_config\<lparr>lowercase := True\<rparr>)"
    by (simp add: sample_config_def)
  from extract_words_ignores_lowercase
         [of sample_config "sample_config\<lparr>lowercase := True\<rparr>" sample_unicode "ascii ''The Quick fox''"]
       v l
  show ?thesis by simp
qed

text \<open>
  C9: on the text \<^verbatim>\<open>contact me at a.b+test@example.co.uk please\<close> the email
  extractor returns the one address \<^verbatim>\<open>a.b+test@example.co.uk\<close>, but the last label of
  what it returns need not consist of letters: the last class of the pattern is written
  \<^verbatim>\<open>[A-Z|a-z]\<close> and holds the bar. From \<^verbatim>\<open>bob@a.io|al@b.org\<close> the extractor returns
  \<^verbatim>\<open>bob@a.io|al\<close> and nothing else, and from \<^verbatim>\<open>a@b.||x\<close> it returns \<^verbatim>\<open>a@b.||x\<close>. The
  other parts of the pattern are as described: digits are members of the local part
  and of the domain, a word boundary is required at both ends, and the last label has
  two characters at least. The shape of every string returned is
  \<open>extract_emails_shape\<close>.
\<close>

theorem extract_emails_admits_bar:
  "extract_emails U (ascii ''contact me at a.b+test@example.co.uk please'') =
     [ascii ''a.b+test@example.co.uk''] \<and>
   extract_emails U (ascii ''bob@a.io|al@b.org'') = [ascii ''bob@a.io|al''] \<and>
   extract_emails U (ascii ''a@b.||x'') = [ascii ''a@b.||x''] \<and>
   extract_emails U (ascii ''x1@y2.io'') = [ascii ''x1@y2.io''] \<and>
   extract_emails U (ascii ''-a@b.io'') = [ascii ''a@b.io''] \<and>
   extract_emails U (ascii ''a@b.io|'') = [ascii ''a@b.io''] \<and>
   extract_emails U (ascii ''a@b.io1'') = [] \<and>
   extract_emails U (ascii ''a@b.c'') = []"
  by code_simp

text \<open>
  C10: a word that \<open>extract_words\<close> returns need not be returned again when the
  tokenizer is run on the word itself. The multiplication sign is a member of the class
  and no word character: after a digit a match may start with it, but at the start of a
  text it cannot. From \<^verbatim>\<open>10\<close>, U+00D7, \<^verbatim>\<open>faster\<close> the tokenizer returns the word U+00D7
  \<^verbatim>\<open>faster\<close>, and from that word it returns \<^verbatim>\<open>faster\<close>. A returned word that begins and
  ends with a word character is a fixed point (\<open>extract_words_fixed_point\<close>).
\<close>

theorem extract_words_not_fixed_point:
  "extract_words U sample_config (ascii ''10'' @ [0xD7] @ ascii ''faster'') = [[0xD7] @ ascii ''faster''] \<and>
   extract_words U sample_config ([0xD7] @ ascii ''faster'') = [ascii ''faster'']"
  by code_simp

text \<open>
  C4: a key of the tally can be longer than the maximum word length. The length is
  tested on the match and the match is put in lower case afterwards; with numbers the
  match may hold U+0130, whose lower-case form is two code points. With a maximum of 8
  the eight characters U+0130 \<^verbatim>\<open>stanbul\<close> are kept and become a word of nine. Without
  numbers the keys are within the bounds and lower case
  (\<open>extract_words_letters_bounds\<close>), and the counts only grow (\<open>crawl_words_mono\<close>).
\<close>

theorem extract_words_exceeds_max_word_length:
  "extract_words sample_unicode (sample_config\<lparr>with_numbers := True, max_word_length := Some 8\<rparr>)
     ([0x130] @ ascii ''stanbul'') = [[0x69, 0x307] @ ascii ''stanbul''] \<and>
   length ([0x69, 0x307] @ ascii ''stanbul'') = 9"
  by code_simp

section \<open>The crawl engine: what a call changes\<close>

lemma grows_refl: "grows E c d s s"
  unfolding grows_def by (intro conjI exI [of _ "[]"]) simp_all

lemma grows_trans:
  assumes "grows E c d s s'" and "grows E c d s' s''"
  shows "grows E c d s s''"
proof -
  from assms(1) obtain n1 where n1:
    "crawl_log s' = crawl_log s @ n1" "visited_urls s' = visited_urls s \<union> set (map fst n1)"
    "distinct (map fst n1)" "set (map fst n1) \<inter> visited_urls s = {}"
    "list_all (\<lambda>(u, d'). d \<le> d' \<and> d' \<le> depth c \<and> is_valid_url E c u = Inr True) n1"
    and w1: "words s \<subseteq># words s'" and e1: "emails s \<subseteq> emails s'"
    unfolding grows_def by blast
  from assms(2) obtain n2 where n2:
    "crawl_log s'' = crawl_log s' @ n2" "visited_urls s'' = visited_urls s' \<union> set (map fst n2)"
    "distinct (map fst n2)" "set (map fst n2) \<inter> visited_urls s' = {}"
    "list_all (\<lambda>(u, d'). d \<le> d' \<and> d' \<le> depth c \<and> is_valid_url E c u = Inr True) n2"
    and w2: "words s' \<subseteq># words s''" and e2: "emails s' \<subseteq> emails s''"
    unfolding grows_def by blast
  have a: "crawl_log s'' = crawl_log s @ (n1 @ n2)" using n1(1) n2(1) by simp
  have b: "visited_urls s'' = visited_urls s \<union> set (map fst (n1 @ n2))"
    using n1(2) n2(2) by auto
  have c: "distinct (map fst (n1 @ n2))"
    using n1(2,3) n2(3,4) by auto
  have d: "set (map fst (n1 @ n2)) \<inter> visited_urls s = {}"
    using n1(2,4) n2(4) by auto
  have e: "list_all (\<lambda>(u, d'). d \<le> d' \<and> d' \<le> depth c \<and> is_valid_url E c u = Inr True) (n1 @ n2)"
    using n1(5) n2(5) by simp
  have f: "words s \<subseteq># words s''" using w1 w2 by (rule subset_mset.order_trans)
  have g: "emails s \<subseteq> emails s''" using e1 e2 by (rule subset_trans)
  show ?thesis unfolding grows_def
    using a b c d e f g by blast
qed

lemma grows_depth:
  assumes "grows E c d' s s'" and "d \<le> d'"
  shows "grows E c d s s'"
proof -
  from assms(1) obtain n1 where n1:
    "crawl_log s' = crawl_log s @ n1" "visited_urls s' = visited_urls s \<union> set (map fst n1)"
    "distinct (map fst n1)" "set (map fst n1) \<inter> visited_urls s = {}"
    "list_all (\<lambda>(u, x). d' \<le> x \<and> x \<le> depth c \<and> is_valid_url E c u = Inr True) n1"
    and w1: "words s \<subseteq># words s'" and e1: "emails s \<subseteq> emails s'"
    unfolding grows_def by blast
  from n1(5) assms(2)
  have "list_all (\<lambda>(u, x). d \<le> x \<and> x \<le> depth c \<and> is_valid_url E c u = Inr True) n1"
    by (auto simp: list_all_iff)
  with n1(1-4) w1 e1 show ?thesis unfolding grows_def by blast
qed

lemma meta_words_fields:
  "visited_urls (meta_words E c tags s) = visited_urls s \<and>
   crawl_log (meta_words E c tags s) = crawl_log s \<and>
   emails (meta_words E c tags s) = emails s \<and>
   words s \<subseteq># words (meta_words E c tags s)"
proof (induction tags arbitrary: s)
  case Nil
  show ?case by simp
next
  case (Cons content tags)
  show ?case
  proof (cases "content = []")
    case True
    with Cons [of s] show ?thesis by simp
  next
    case False
    let ?s = "s\<lparr>words := words s + mset (extract_words (ucd E) c content)\<rparr>"
    have eq: "meta_words E c (content # tags) s = meta_words E c tags ?s"
      using False by simp
    have "words s \<subseteq># words ?s" by simp
    moreover from Cons [of ?s] have "words ?s \<subseteq># words (meta_words E c tags ?s)" by simp
    ultimately have "words s \<subseteq># words (meta_words E c tags ?s)"
      by (rule subset_mset.order_trans)
    with Cons [of ?s] show ?thesis unfolding eq by simp
  qed
qed

lemma scrape_fields:
  "visited_urls (scrape E c p s) = visited_urls s \<and>
   crawl_log (scrape E c p s) = crawl_log s \<and>
   emails s \<subseteq> emails (scrape E c p s) \<and>
   words s \<subseteq># words (scrape E c p s)"
proof -
  let ?s1 = "s\<lparr>words := words s + mset (extract_words (ucd E) c (page_text p))\<rparr>"
  let ?s2 = "if truthy (email_file c)
             then ?s1\<lparr>emails := emails ?s1 \<union> set (extract_emails (ucd E) (page_text p))\<rparr>
             else ?s1"
  have s2: "visited_urls ?s2 = visited_urls s \<and> crawl_log ?s2 = crawl_log s \<and>
            emails s \<subseteq> emails ?s2 \<and> words s \<subseteq># words ?s2"
    by auto
  have eq: "scrape E c p s = (if meta c then meta_words E c (page_metas p) ?s2 else ?s2)"
    by (simp add: scrape_def Let_def)
  show ?thesis
  proof (cases "meta c")
    case True
    with eq have eq': "scrape E c p s = meta_words E c (page_metas p) ?s2" by simp
    note m = meta_words_fields [of E c "page_metas p" ?s2]
    from s2 m have "words s \<subseteq># words (meta_words E c (page_metas p) ?s2)"
      by (blast intro: subset_mset.order_trans)
    with s2 m show ?thesis unfolding eq' by simp
  next
    case False
    with eq s2 show ?thesis by simp
  qed
qed

lemma scrape_grows: "grows E c d s (scrape E c p s)"
  unfolding grows_def using scrape_fields [of E c p s]
  by (intro conjI exI [of _ "[]"]) simp_all

lemma crawl_skip:
  "depth c < d \<or> url \<in> visited_urls s \<Longrightarrow> crawl E c url d s = (None, s)"
  by (simp add: crawl.simps [of E c url d s])

lemma crawl_raises:
  "\<not> depth c < d \<Longrightarrow> url \<notin> visited_urls s \<Longrightarrow> is_valid_url E c url = Inl e \<Longrightarrow>
   crawl E c url d s = (Some e, s)"
  by (simp add: crawl.simps [of E c url d s])

lemma crawl_out_of_scope:
  "\<not> depth c < d \<Longrightarrow> url \<notin> visited_urls s \<Longrightarrow> is_valid_url E c url = Inr False \<Longrightarrow>
   crawl E c url d s = (None, s)"
  by (simp add: crawl.simps [of E c url d s])

lemma crawl_fetch_fails:
  "\<not> depth c < d \<Longrightarrow> url \<notin> visited_urls s \<Longrightarrow> is_valid_url E c url = Inr True \<Longrightarrow>
   fetch_page E (crawl_log s) url = Raises e \<Longrightarrow>
   crawl E c url d s =
     (None, s\<lparr>visited_urls := insert url (visited_urls s), crawl_log := crawl_log s @ [(url, d)]\<rparr>)"
  by (simp add: crawl.simps [of E c url d s])

lemma crawl_leaf:
  "\<not> depth c < d \<Longrightarrow> url \<notin> visited_urls s \<Longrightarrow> is_valid_url E c url = Inr True \<Longrightarrow>
   fetch_page E (crawl_log s) url = Parsed p \<Longrightarrow> \<not> d < depth c \<Longrightarrow>
   crawl E c url d s =
     (None, scrape E c p
        (s\<lparr>visited_urls := insert url (visited_urls s), crawl_log := crawl_log s @ [(url, d)]\<rparr>))"
  by (simp add: crawl.simps [of E c url d s])

lemma crawl_node:
  "\<not> depth c < d \<Longrightarrow> url \<notin> visited_urls s \<Longrightarrow> is_valid_url E c url = Inr True \<Longrightarrow>
   fetch_page E (crawl_log s) url = Parsed p \<Longrightarrow> d < depth c \<Longrightarrow>
   crawl E c url d s =
     (None, snd (crawl_links E c url d (page_hrefs p) (scrape E c p
        (s\<lparr>visited_urls := insert url (visited_urls s), crawl_log := crawl_log s @ [(url, d)]\<rparr>))))"
  by (simp add: crawl.simps [of E c url d s])

lemma mark_grows:
  "\<not> depth c < d \<Longrightarrow> url \<notin> visited_urls s \<Longrightarrow> is_valid_url E c url = Inr True \<Longrightarrow>
   grows E c d s
     (s\<lparr>visited_urls := insert url (visited_urls s), crawl_log := crawl_log s @ [(url, d)]\<rparr>)"
  unfolding grows_def by (intro conjI exI [of _ "[(url, d)]"]) simp_all

lemma crawl_grows:
  "grows E c d s (snd (crawl E c url d s))"
  "grows E c (d + 1) s (snd (crawl_links E c url d links s))"
proof (induction E c url d s and E c url d links s rule: crawl_crawl_links.induct)
  case (1 E c url d s)
  let ?s1 = "s\<lparr>visited_urls := insert url (visited_urls s), crawl_log := crawl_log s @ [(url, d)]\<rparr>"
  show ?case
  proof (cases "depth c < d \<or> url \<in> visited_urls s")
    case True
    then show ?thesis by (simp add: crawl_skip grows_refl)
  next
    case guard: False
    then have g: "\<not> depth c < d" "url \<notin> visited_urls s" by auto
    show ?thesis
    proof (cases "is_valid_url E c url")
      case (Inl e)
      with g show ?thesis by (simp add: crawl_raises grows_refl)
    next
      case (Inr b)
      show ?thesis
      proof (cases b)
        case False
        with Inr g show ?thesis by (simp add: crawl_out_of_scope grows_refl)
      next
        case True
        then have bt: "b = True" by simp
        with Inr have v: "is_valid_url E c url = Inr True" by simp
        note m = mark_grows [OF g v]
        show ?thesis
        proof (cases "fetch_page E (crawl_log s) url")
          case (Raises e)
          with g v m show ?thesis by (simp add: crawl_fetch_fails)
        next
          case (Parsed p)
          have sc: "grows E c d s (scrape E c p ?s1)"
            using m scrape_grows [of E c d ?s1 p] by (rule grows_trans)
          show ?thesis
          proof (cases "d < depth c")
            case False
            with g v Parsed sc show ?thesis by (simp add: crawl_leaf)
          next
            case deeper: True
            have "grows E c (d + 1) (scrape E c p ?s1)
                    (snd (crawl_links E c url d (page_hrefs p) (scrape E c p ?s1)))"
              using "1.IH" [OF guard Inr bt refl Parsed refl deeper] .
            then have "grows E c d (scrape E c p ?s1)
                    (snd (crawl_links E c url d (page_hrefs p) (scrape E c p ?s1)))"
              by (rule grows_depth) simp
            with sc have "grows E c d s
                    (snd (crawl_links E c url d (page_hrefs p) (scrape E c p ?s1)))"
              by (rule grows_trans)
            with g v Parsed deeper show ?thesis by (simp add: crawl_node)
          qed
        qed
      qed
    qed
  qed
next
  case (2 E c url d s)
  show ?case by (simp add: grows_refl)
next
  case (3 E c url d href links s)
  show ?case
  proof (cases "urljoin E url href")
    case None
    then show ?thesis by (simp add: grows_refl)
  next
    case (Some next_url)
    let ?u = "takeWhile (\<lambda>x. x \<noteq> ord CHR ''#'') next_url"
    obtain r s' where r: "crawl E c ?u (d + 1) s = (r, s')" by (cases "crawl E c ?u (d + 1) s")
    from "3.IH"(1) [OF Some] r have g1: "grows E c (d + 1) s s'" by simp
    show ?thesis
    proof (cases r)
      case None
      from "3.IH"(2) [OF Some r [symmetric] None]
      have "grows E c (d + 1) s' (snd (crawl_links E c url d links s'))" .
      with g1 have "grows E c (d + 1) s (snd (crawl_links E c url d links s'))"
        by (rule grows_trans)
      with Some r None show ?thesis by simp
    next
      case (Some e)
      with \<open>urljoin E url href = Some next_url\<close> r g1 show ?thesis by simp
    qed
  qed
qed

text \<open>Words and emails are only added: the counts of the tally never decrease.\<close>

lemma crawl_words_mono:
  "words s \<subseteq># words (snd (crawl E c url d s)) \<and> emails s \<subseteq> emails (snd (crawl E c url d s))"
  using crawl_grows(1) [of E c d s url] unfolding grows_def by blast

section \<open>Properties of the crawl\<close>

text \<open>
  C1: no URL is fetched more than once. If the URLs of the log are pairwise different
  and are exactly the visited URLs, as on a new object, the same holds after any call of
  \<open>crawl\<close>, so the number of visited URLs is the number of fetches; and a call for a
  URL that is visited already returns at once and changes nothing.
\<close>

theorem crawl_fetches_once:
  assumes "distinct (map fst (crawl_log s))"
    and "set (map fst (crawl_log s)) = visited_urls s"
  shows "distinct (map fst (crawl_log (snd (crawl E c url d s)))) \<and>
         set (map fst (crawl_log (snd (crawl E c url d s)))) = visited_urls (snd (crawl E c url d s)) \<and>
         card (visited_urls (snd (crawl E c url d s))) = length (crawl_log (snd (crawl E c url d s))) \<and>
         (url \<in> visited_urls s \<longrightarrow> crawl E c url d s = (None, s))"
proof -
  let ?s' = "snd (crawl E c url d s)"
  from crawl_grows(1) [of E c d s url] obtain new where new:
    "crawl_log ?s' = crawl_log s @ new"
    "visited_urls ?s' = visited_urls s \<union> set (map fst new)"
    "distinct (map fst new)"
    "set (map fst new) \<inter> visited_urls s = {}"
    unfolding grows_def by blast
  have d: "distinct (map fst (crawl_log ?s'))"
    using assms new by auto
  have v: "set (map fst (crawl_log ?s')) = visited_urls ?s'"
    using assms(2) new(1,2) by auto
  have "card (set (map fst (crawl_log ?s'))) = length (map fst (crawl_log ?s'))"
    using d by (rule distinct_card)
  with v have k: "card (visited_urls ?s') = length (crawl_log ?s')" by simp
  show ?thesis using d v k by (simp add: crawl_skip)
qed

theorem crawl_fetches_once_witness:
  "distinct (map fst (crawl_log init_state)) \<and>
   set (map fst (crawl_log init_state)) = visited_urls init_state \<and>
   distinct (map fst (crawl_log (snd (run_crawl sample_env sample_config)))) \<and>
   set (map fst (crawl_log (snd (run_crawl sample_env sample_config)))) =
     visited_urls (snd (run_crawl sample_env sample_config)) \<and>
   card (visited_urls (snd (run_crawl sample_env sample_config))) =
     length (crawl_log (snd (run_crawl sample_env sample_config))) \<and>
   crawl_log (snd (run_crawl sample_env sample_config)) =
     [(ascii ''http://a.io/'', 0), (ascii ''http://a.io/b'', 1), (ascii ''http://a.io/f'', 1)] \<and>
   ascii ''http://a.io/b'' \<in> visited_urls (snd (run_crawl sample_env sample_config)) \<and>
   crawl sample_env sample_config (ascii ''http://a.io/b'') 1 (snd (run_crawl sample_env sample_config)) =
     (None, snd (run_crawl sample_env sample_config))"
proof -
  let ?s = "snd (run_crawl sample_env sample_config)"
  have h1: "distinct (map fst (crawl_log init_state))" by (simp add: init_state_def)
  have h2: "set (map fst (crawl_log init_state)) = visited_urls init_state"
    by (simp add: init_state_def)
  have l: "crawl_log ?s =
     [(ascii ''http://a.io/'', 0), (ascii ''http://a.io/b'', 1), (ascii ''http://a.io/f'', 1)]"
    by code_simp
  have b: "ascii ''http://a.io/b'' \<in> visited_urls ?s" by code_simp
  note first = crawl_fetches_once [OF h1 h2, where E = sample_env and c = sample_config
      and url = "start_url sample_config" and d = 0, folded run_crawl_def]
  then have g1: "distinct (map fst (crawl_log ?s))" and g2: "set (map fst (crawl_log ?s)) = visited_urls ?s"
    by simp_all
  note second = crawl_fetches_once [OF g1 g2, where E = sample_env and c = sample_config
      and url = "ascii ''http://a.io/b''" and d = 1]
  from h1 h2 first second l b show ?thesis by simp
qed

lemma crawl_at_max_depth:
  assumes "depth c \<le> d"
  shows "crawl_log (snd (crawl E c url d s)) = crawl_log s \<or>
         crawl_log (snd (crawl E c url d s)) = crawl_log s @ [(url, d)]"
proof (cases "depth c < d \<or> url \<in> visited_urls s")
  case True
  then show ?thesis by (simp add: crawl_skip)
next
  case False
  then have g: "\<not> depth c < d" "url \<notin> visited_urls s" by auto
  from assms have leaf: "\<not> d < depth c" by simp
  show ?thesis
  proof (cases "is_valid_url E c url")
    case (Inl e)
    with g show ?thesis by (simp add: crawl_raises)
  next
    case (Inr b)
    show ?thesis
    proof (cases b)
      case False
      with Inr g show ?thesis by (simp add: crawl_out_of_scope)
    next
      case True
      with Inr have v: "is_valid_url E c url = Inr True" by simp
      show ?thesis
      proof (cases "fetch_page E (crawl_log s) url")
        case (Raises e)
        with g v show ?thesis by (simp add: crawl_fetch_fails)
      next
        case (Parsed p)
        with g v leaf show ?thesis by (simp add: crawl_leaf scrape_fields)
      qed
    qed
  qed
qed

text \<open>
  C2: the depth bound. A call at a depth above the maximum changes nothing and fetches
  nothing; a call at the maximum depth or above fetches at most its own URL, so the
  links of that page are not followed; every fetch of a call at depth \<open>d\<close> is logged
  with a depth from \<open>d\<close> to the maximum; and with a maximum of 0 a run fetches the start
  URL at most, whatever links its page has.
\<close>

theorem crawl_depth_bound:
  "(depth c < d \<longrightarrow> crawl E c url d s = (None, s)) \<and>
   (depth c \<le> d \<longrightarrow>
      crawl_log (snd (crawl E c url d s)) = crawl_log s \<or>
      crawl_log (snd (crawl E c url d s)) = crawl_log s @ [(url, d)]) \<and>
   (\<exists>new. crawl_log (snd (crawl E c url d s)) = crawl_log s @ new \<and>
          list_all (\<lambda>(u, d'). d \<le> d' \<and> d' \<le> depth c) new) \<and>
   (depth c = 0 \<longrightarrow>
      crawl_log (snd (run_crawl E c)) = [] \<or>
      crawl_log (snd (run_crawl E c)) = [(start_url c, 0)])"
proof -
  from crawl_grows(1) [of E c d s url] obtain new where new:
    "crawl_log (snd (crawl E c url d s)) = crawl_log s @ new"
    "list_all (\<lambda>(u, d'). d \<le> d' \<and> d' \<le> depth c \<and> is_valid_url E c u = Inr True) new"
    unfolding grows_def by blast
  from new(2) have "list_all (\<lambda>(u, d'). d \<le> d' \<and> d' \<le> depth c) new"
    by (auto simp: list_all_iff)
  with new(1) have third:
    "\<exists>new. crawl_log (snd (crawl E c url d s)) = crawl_log s @ new \<and>
           list_all (\<lambda>(u, d'). d \<le> d' \<and> d' \<le> depth c) new" by blast
  have fourth: "crawl_log (snd (run_crawl E c)) = [] \<or>
      crawl_log (snd (run_crawl E c)) = [(start_url c, 0)]" if "depth c = 0"
    using that crawl_at_max_depth [of c 0 E "start_url c" init_state]
    by (simp add: run_crawl_def init_state_def)
  show ?thesis
    using third fourth crawl_at_max_depth [of c d E url s] by (simp add: crawl_skip)
qed

theorem crawl_depth_bound_witness:
  "depth sample_config < 2 \<and>
   crawl sample_env sample_config (ascii ''http://a.io/b'') 2 init_state = (None, init_state) \<and>
   depth sample_config \<le> 1 \<and>
   fetch_page sample_env (crawl_log init_state) (ascii ''http://a.io/b'') =
     Parsed \<lparr>page_text = ascii ''mail bob@a.io'', page_metas = [],
             page_hrefs = [ascii ''http://a.io/c'']\<rparr> \<and>
   crawl_log (snd (crawl sample_env sample_config (ascii ''http://a.io/b'') 1 init_state)) =
     crawl_log init_state @ [(ascii ''http://a.io/b'', 1)] \<and>
   depth (sample_config\<lparr>depth := 0\<rparr>) = 0 \<and>
   crawl_log (snd (run_crawl sample_env (sample_config\<lparr>depth := 0\<rparr>))) =
     [(start_url (sample_config\<lparr>depth := 0\<rparr>), 0)]"
proof -
  have h1: "depth sample_config < 2" and h2: "depth sample_config \<le> 1"
    and h3: "depth (sample_config\<lparr>depth := 0\<rparr>) = 0"
    by (simp_all add: sample_config_def)
  have p: "fetch_page sample_env (crawl_log init_state) (ascii ''http://a.io/b'') =
     Parsed \<lparr>page_text = ascii ''mail bob@a.io'', page_metas = [],
             page_hrefs = [ascii ''http://a.io/c'']\<rparr>" by code_simp
  have n1: "crawl_log (snd (crawl sample_env sample_config (ascii ''http://a.io/b'') 1 init_state)) \<noteq>
     crawl_log init_state" by code_simp
  have n2: "crawl_log (snd (run_crawl sample_env (sample_config\<lparr>depth := 0\<rparr>))) \<noteq> []"
    by code_simp
  note a = crawl_depth_bound [where E = sample_env and c = sample_config
      and url = "ascii ''http://a.io/b''" and d = 2 and s = init_state]
  note b = crawl_depth_bound [where E = sample_env and c = sample_config
      and url = "ascii ''http://a.io/b''" and d = 1 and s = init_state]
  note c = crawl_depth_bound [where E = sample_env and c = "sample_config\<lparr>depth := 0\<rparr>"
      and url = "ascii ''http://a.io/b''" and d = 1 and s = init_state]
  from a h1 have r1: "crawl sample_env sample_config (ascii ''http://a.io/b'') 2 init_state =
     (None, init_state)" by blast
  from b h2 n1 have r2:
    "crawl_log (snd (crawl sample_env sample_config (ascii ''http://a.io/b'') 1 init_state)) =
     crawl_log init_state @ [(ascii ''http://a.io/b'', 1)]" by blast
  from c h3 n2 have r3: "crawl_log (snd (run_crawl sample_env (sample_config\<lparr>depth := 0\<rparr>))) =
     [(start_url (sample_config\<lparr>depth := 0\<rparr>), 0)]" by blast
  from h1 h2 h3 p r1 r2 r3 show ?thesis by blast
qed







lemma grows_keeps_visited:
  assumes "grows E c d t t'" and "url \<in> visited_urls t"
  shows "url \<in> visited_urls t' \<and>
         filter (\<lambda>x. fst x = url) (crawl_log t') = filter (\<lambda>x. fst x = url) (crawl_log t)"
proof -
  from assms(1) obtain new where new:
    "crawl_log t' = crawl_log t @ new"
    "visited_urls t' = visited_urls t \<union> set (map fst new)"
    "set (map fst new) \<inter> visited_urls t = {}"
    unfolding grows_def by blast
  from new(3) assms(2) have "url \<notin> set (map fst new)" by auto
  then have "filter (\<lambda>x. fst x = url) new = []"
    by (auto simp: filter_empty_conv)
  with new(1,2) assms(2) show ?thesis by simp
qed

text \<open>
  C5: a failed fetch. When the request or the parse of an unvisited URL in scope raises,
  \<open>crawl\<close> returns normally; the URL is marked visited and logged once, and words and
  emails are as before. The loop over the links of the referring page goes on with the
  links that follow. From then on a call for this URL returns at once, and no call of
  \<open>crawl\<close> or \<open>crawl_links\<close> logs a fetch of it again.
\<close>

theorem crawl_fetch_failure:
  assumes "\<not> depth c < d" and "url \<notin> visited_urls s"
    and "is_valid_url E c url = Inr True"
    and "fetch_page E (crawl_log s) url = Raises e"
  shows "crawl E c url d s =
           (None, s\<lparr>visited_urls := insert url (visited_urls s),
                     crawl_log := crawl_log s @ [(url, d)]\<rparr>) \<and>
         words (snd (crawl E c url d s)) = words s \<and>
         emails (snd (crawl E c url d s)) = emails s \<and>
         (urljoin E base href = Some next_url \<and>
          takeWhile (\<lambda>x. x \<noteq> ord CHR ''#'') next_url = url \<and> d = d0 + 1 \<longrightarrow>
            crawl_links E c base d0 (href # links) s =
              crawl_links E c base d0 links (snd (crawl E c url d s))) \<and>
         (url \<in> visited_urls t \<longrightarrow>
            crawl E c url d' t = (None, t) \<and>
            url \<in> visited_urls (snd (crawl E c url' d' t)) \<and>
            filter (\<lambda>x. fst x = url) (crawl_log (snd (crawl E c url' d' t))) =
              filter (\<lambda>x. fst x = url) (crawl_log t) \<and>
            url \<in> visited_urls (snd (crawl_links E c url' d' links' t)) \<and>
            filter (\<lambda>x. fst x = url) (crawl_log (snd (crawl_links E c url' d' links' t))) =
              filter (\<lambda>x. fst x = url) (crawl_log t))"
proof -
  let ?s1 = "s\<lparr>visited_urls := insert url (visited_urls s),
               crawl_log := crawl_log s @ [(url, d)]\<rparr>"
  have eq: "crawl E c url d s = (None, ?s1)"
    using assms by (rule crawl_fetch_fails)
  have sib: "crawl_links E c base d0 (href # links) s =
              crawl_links E c base d0 links (snd (crawl E c url d s))"
    if "urljoin E base href = Some next_url"
      and "takeWhile (\<lambda>x. x \<noteq> ord CHR ''#'') next_url = url" and "d = d0 + 1"
    using that eq by simp
  have later: "crawl E c url d' t = (None, t) \<and>
            url \<in> visited_urls (snd (crawl E c url' d' t)) \<and>
            filter (\<lambda>x. fst x = url) (crawl_log (snd (crawl E c url' d' t))) =
              filter (\<lambda>x. fst x = url) (crawl_log t) \<and>
            url \<in> visited_urls (snd (crawl_links E c url' d' links' t)) \<and>
            filter (\<lambda>x. fst x = url) (crawl_log (snd (crawl_links E c url' d' links' t))) =
              filter (\<lambda>x. fst x = url) (crawl_log t)"
    if v: "url \<in> visited_urls t"
    using grows_keeps_visited [OF crawl_grows(1) [of E c d' t url'] v]
      grows_keeps_visited [OF crawl_grows(2) [of E c d' t url' links'] v] v
    by (simp add: crawl_skip)
  show ?thesis using eq sib later by simp
qed

theorem crawl_fetch_failure_witness:
  "\<not> depth sample_config < 1 \<and>
   ascii ''http://a.io/f'' \<notin> visited_urls init_state \<and>
   is_valid_url sample_env sample_config (ascii ''http://a.io/f'') = Inr True \<and>
   fetch_page sample_env (crawl_log init_state) (ascii ''http://a.io/f'') = Raises RequestException \<and>
   crawl sample_env sample_config (ascii ''http://a.io/f'') 1 init_state =
     (None, init_state\<lparr>visited_urls := insert (ascii ''http://a.io/f'') (visited_urls init_state),
                       crawl_log := crawl_log init_state @ [(ascii ''http://a.io/f'', 1)]\<rparr>) \<and>
   words (snd (crawl sample_env sample_config (ascii ''http://a.io/f'') 1 init_state)) = words init_state \<and>
   urljoin sample_env (ascii ''http://a.io/'') (ascii ''http://a.io/f#x'') = Some (ascii ''http://a.io/f#x'') \<and>
   takeWhile (\<lambda>x. x \<noteq> ord CHR ''#'') (ascii ''http://a.io/f#x'') = ascii ''http://a.io/f'' \<and>
   crawl_links sample_env sample_config (ascii ''http://a.io/'') 0
       [ascii ''http://a.io/f#x'', ascii ''http://a.io/b''] init_state =
     crawl_links sample_env sample_config (ascii ''http://a.io/'') 0 [ascii ''http://a.io/b'']
       (snd (crawl sample_env sample_config (ascii ''http://a.io/f'') 1 init_state)) \<and>
   crawl_log (snd (crawl_links sample_env sample_config (ascii ''http://a.io/'') 0
       [ascii ''http://a.io/f#x'', ascii ''http://a.io/b''] init_state)) =
     [(ascii ''http://a.io/f'', 1), (ascii ''http://a.io/b'', 1)] \<and>
   ascii ''http://a.io/f'' \<in> visited_urls (snd (run_crawl sample_env sample_config)) \<and>
   crawl sample_env sample_config (ascii ''http://a.io/f'') 0 (snd (run_crawl sample_env sample_config)) =
     (None, snd (run_crawl sample_env sample_config))"
proof -
  have h1: "\<not> depth sample_config < 1" by (simp add: sample_config_def)
  have h2: "ascii ''http://a.io/f'' \<notin> visited_urls init_state" by (simp add: init_state_def)
  have h3: "is_valid_url sample_env sample_config (ascii ''http://a.io/f'') = Inr True" by code_simp
  have h4: "fetch_page sample_env (crawl_log init_state) (ascii ''http://a.io/f'') =
              Raises RequestException" by code_simp
  have j: "urljoin sample_env (ascii ''http://a.io/'') (ascii ''http://a.io/f#x'') =
             Some (ascii ''http://a.io/f#x'')" by (simp add: sample_env_def)
  have k: "takeWhile (\<lambda>x. x \<noteq> ord CHR ''#'') (ascii ''http://a.io/f#x'') = ascii ''http://a.io/f''"
    by (simp add: ascii_def)
  have l: "crawl_log (snd (crawl_links sample_env sample_config (ascii ''http://a.io/'') 0
       [ascii ''http://a.io/f#x'', ascii ''http://a.io/b''] init_state)) =
     [(ascii ''http://a.io/f'', 1), (ascii ''http://a.io/b'', 1)]" by code_simp
  have v: "ascii ''http://a.io/f'' \<in> visited_urls (snd (run_crawl sample_env sample_config))"
    by code_simp
  note t = crawl_fetch_failure [OF h1 h2 h3 h4, where base = "ascii ''http://a.io/''"
      and href = "ascii ''http://a.io/f#x''" and next_url = "ascii ''http://a.io/f#x''"
      and ?d0.0 = 0 and links = "[ascii ''http://a.io/b'']"
      and t = "snd (run_crawl sample_env sample_config)" and d' = 0]
  from t j k have sib: "crawl_links sample_env sample_config (ascii ''http://a.io/'') 0
       [ascii ''http://a.io/f#x'', ascii ''http://a.io/b''] init_state =
     crawl_links sample_env sample_config (ascii ''http://a.io/'') 0 [ascii ''http://a.io/b'']
       (snd (crawl sample_env sample_config (ascii ''http://a.io/f'') 1 init_state))" by simp
  from t v have again: "crawl sample_env sample_config (ascii ''http://a.io/f'') 0
       (snd (run_crawl sample_env sample_config)) = (None, snd (run_crawl sample_env sample_config))"
    by blast
  from t have first: "crawl sample_env sample_config (ascii ''http://a.io/f'') 1 init_state =
     (None, init_state\<lparr>visited_urls := insert (ascii ''http://a.io/f'') (visited_urls init_state),
                       crawl_log := crawl_log init_state @ [(ascii ''http://a.io/f'', 1)]\<rparr>)"
    and w: "words (snd (crawl sample_env sample_config (ascii ''http://a.io/f'') 1 init_state)) =
      words init_state" by blast+
  from h1 h2 h3 h4 first w j k sib l v again show ?thesis by blast
qed

text \<open>
  C6: the crawl terminates. Every argument of \<open>crawl\<close> and of \<open>crawl_links\<close> is in the
  domain of the recursion: the depth left decreases in every call of \<open>crawl\<close> from
  the loop, and the loop runs over a finite list of links. Every fetch of a call is one
  new visited URL with a depth up to the maximum, so the visited set grows strictly
  whenever a call fetches anything.
\<close>

theorem crawl_terminates:
  "crawl_crawl_links_dom (Inl (E, c, url, d, s)) \<and>
   crawl_crawl_links_dom (Inr (E, c, url, d, links, s)) \<and>
   (\<exists>new. crawl_log (snd (crawl E c url d s)) = crawl_log s @ new \<and>
          visited_urls (snd (crawl E c url d s)) = visited_urls s \<union> set (map fst new) \<and>
          distinct (map fst new) \<and> set (map fst new) \<inter> visited_urls s = {} \<and>
          list_all (\<lambda>(u, d'). d \<le> d' \<and> d' \<le> depth c) new) \<and>
   (crawl_log (snd (crawl E c url d s)) \<noteq> crawl_log s \<longrightarrow>
      visited_urls s \<subset> visited_urls (snd (crawl E c url d s)))"
proof -
  from crawl_grows(1) [of E c d s url] obtain new where new:
    "crawl_log (snd (crawl E c url d s)) = crawl_log s @ new"
    "visited_urls (snd (crawl E c url d s)) = visited_urls s \<union> set (map fst new)"
    "distinct (map fst new)" "set (map fst new) \<inter> visited_urls s = {}"
    "list_all (\<lambda>(u, d'). d \<le> d' \<and> d' \<le> depth c \<and> is_valid_url E c u = Inr True) new"
    unfolding grows_def by blast
  from new(5) have b: "list_all (\<lambda>(u, d'). d \<le> d' \<and> d' \<le> depth c) new"
    by (auto simp: list_all_iff)
  have strict: "visited_urls s \<subset> visited_urls (snd (crawl E c url d s))"
    if "crawl_log (snd (crawl E c url d s)) \<noteq> crawl_log s"
  proof -
    from that new(1) have "new \<noteq> []" by auto
    then obtain x where "x \<in> set (map fst new)" by (cases new) auto
    with new(2,4) show ?thesis by auto
  qed
  from crawl_all_dom have dom: "crawl_crawl_links_dom x" for x by blast
  from new(1-4) b have "\<exists>new. crawl_log (snd (crawl E c url d s)) = crawl_log s @ new \<and>
          visited_urls (snd (crawl E c url d s)) = visited_urls s \<union> set (map fst new) \<and>
          distinct (map fst new) \<and> set (map fst new) \<inter> visited_urls s = {} \<and>
          list_all (\<lambda>(u, d'). d \<le> d' \<and> d' \<le> depth c) new" by blast
  with dom strict show ?thesis by blast
qed

theorem crawl_terminates_witness:
  "crawl_crawl_links_dom (Inl (sample_env, sample_config, start_url sample_config, 0, init_state)) \<and>
   crawl_log (snd (run_crawl sample_env sample_config)) \<noteq> crawl_log init_state \<and>
   visited_urls init_state \<subset> visited_urls (snd (run_crawl sample_env sample_config)) \<and>
   fst (run_crawl sample_env sample_config) = None"
proof -
  have n: "crawl_log (snd (run_crawl sample_env sample_config)) \<noteq> crawl_log init_state"
    by code_simp
  have r: "fst (run_crawl sample_env sample_config) = None" by code_simp
  note t = crawl_terminates [where E = sample_env and c = sample_config
      and url = "start_url sample_config" and d = 0 and s = init_state, folded run_crawl_def]
  from t n r show ?thesis by blast
qed

end
